theory Spec2Isabelle
  imports Main "HOL-Library.Sublist" "HOL-Library.List_Lexorder" "HOL-Library.Char_ord"
    "HOL-Library.Multiset"
begin

chapter \<open>The program\<close>

section \<open>Strings of the source language\<close>

text \<open>
  A JavaScript string is modelled as a \<^typ>\<open>string\<close>: one \<^typ>\<open>char\<close> per code unit,
  for texts whose code units are below 256 (a \<^typ>\<open>char\<close> has eight bits; where an
  example needs a character beyond that range, the bytes of its UTF-8 encoding
  stand for it).  The functions below are the built-in string operations the
  sources call, each written for the argument forms that occur in the sources.
\<close>

definition startsWith :: "string \<Rightarrow> string \<Rightarrow> bool" where
  "startsWith s p = prefix p s"

definition endsWith :: "string \<Rightarrow> string \<Rightarrow> bool" where
  "endsWith s p = suffix p s"

text \<open>\<^verbatim>\<open>s.includes(p)\<close>: some position of \<open>s\<close> starts an occurrence of \<open>p\<close>.\<close>

fun includesStr :: "string \<Rightarrow> string \<Rightarrow> bool" where
  "includesStr [] p = (p = [])"
| "includesStr (c # cs) p = (prefix p (c # cs) \<or> includesStr cs p)"



text \<open>Replacing every occurrence by a text taken literally (no dollar patterns).\<close>

function substituteAll :: "string \<Rightarrow> string \<Rightarrow> string \<Rightarrow> string" where
  "substituteAll pat new [] = []"
| "substituteAll pat new (c # cs) =
     (if pat \<noteq> [] \<and> prefix pat (c # cs)
      then new @ substituteAll pat new (drop (length pat) (c # cs))
      else c # substituteAll pat new cs)"
  by pat_completeness auto
termination
  by (relation "measure (\<lambda>(pat, new, s). length s)") auto

section \<open>Head tags: \<^verbatim>\<open>hasTag\<close> and \<^verbatim>\<open>mergeHead\<close>\<close>

text \<open>
  A \<^verbatim>\<open>HeadConfig\<close> is a tag type, an attribute object and an optional inner text.
  The attribute object is the list of its entries in the order
  \<^verbatim>\<open>Object.entries\<close> yields them.
\<close>

record HeadConfig =
  tagType :: string
  tagAttrs :: "(string \<times> string) list"
  tagContent :: "string option"

definition hasTag :: "HeadConfig list \<Rightarrow> HeadConfig \<Rightarrow> bool" where
  "hasTag head tag =
     (if tagType tag \<noteq> ''meta'' then False
      else case tagAttrs tag of
             [] \<Rightarrow> False
           | keyAttr # _ \<Rightarrow>
               list_ex (\<lambda>h. tagType h = tagType tag
                            \<and> map_of (tagAttrs h) (fst keyAttr) = Some (snd keyAttr)) head)"

definition mergeHead :: "HeadConfig list \<Rightarrow> HeadConfig list \<Rightarrow> HeadConfig list" where
  "mergeHead prev cur = filter (\<lambda>t. \<not> hasTag cur t) prev @ cur"

section \<open>Page titles: \<^verbatim>\<open>createTitle\<close>\<close>

text \<open>A title template is a string or a boolean; \<open>None\<close> is \<^verbatim>\<open>undefined\<close>.\<close>

datatype template = TBool bool | TString string


record PageData =
  page_title :: string
  page_titleTemplate :: "template option"



section \<open>The page-module loader of the client app: \<^verbatim>\<open>newRouter\<close>\<close>

text \<open>
  The closure passed to \<^verbatim>\<open>createRouter\<close> keeps two variables,
  \<^verbatim>\<open>isInitialPageLoad\<close> and \<^verbatim>\<open>initialPath\<close> (\<open>None\<close> while unassigned).
\<close>

record LoaderState =
  isInitialPageLoad :: bool
  initialPath :: "string option"

definition newRouter :: "bool \<Rightarrow> LoaderState" where
  "newRouter inBrowser = \<lparr>isInitialPageLoad = inBrowser, initialPath = None\<rparr>"

text \<open>\<^verbatim>\<open>pageFilePath.replace(/\.js$/, '.lean.js')\<close>\<close>

definition leanFile :: "string \<Rightarrow> string" where
  "leanFile pageFilePath =
     (if endsWith pageFilePath ''.js''
      then take (length pageFilePath - 3) pageFilePath @ ''.lean.js''
      else pageFilePath)"

text \<open>
  One call of the loader.  \<^verbatim>\<open>pathToFile\<close> is not part of the sources at hand and
  reads the hash map of the moment, so the value it returned for this call is an
  argument: \<open>None\<close> for \<^verbatim>\<open>null\<close>; the empty string is falsy as well.  The result
  is the module file handed to \<^verbatim>\<open>import\<close> (\<open>None\<close>: nothing is imported and the
  loader returns \<^verbatim>\<open>null\<close>), with the new state.
\<close>

definition loadPageModule ::
  "bool \<Rightarrow> string option \<Rightarrow> LoaderState \<Rightarrow> string option \<times> LoaderState" where
  "loadPageModule inBrowser pathToFile_result st =
     (let (pageModule, st1) =
        (case pathToFile_result of
           None \<Rightarrow> (None, st)
         | Some pageFilePath \<Rightarrow>
             if pageFilePath = [] then (None, st)
             else
               let st' = (if isInitialPageLoad st
                          then st\<lparr>initialPath := Some pageFilePath\<rparr> else st)
               in if isInitialPageLoad st' \<or> initialPath st' = Some pageFilePath
                  then (Some (leanFile pageFilePath), st')
                  else (Some pageFilePath, st'))
      in (pageModule, if inBrowser then st1\<lparr>isInitialPageLoad := False\<rparr> else st1))"

text \<open>The module files requested by the successive loads of a session.\<close>

fun loads :: "bool \<Rightarrow> string option list \<Rightarrow> LoaderState \<Rightarrow> string option list" where
  "loads inBrowser [] st = []"
| "loads inBrowser (r # rs) st =
     (case loadPageModule inBrowser r st of
        (pageModule, st') \<Rightarrow> pageModule # loads inBrowser rs st')"

section \<open>Rewrites: \<^verbatim>\<open>resolveRewrites\<close>\<close>

text \<open>
  The functions \<^verbatim>\<open>compile\<close> and \<^verbatim>\<open>match\<close> come from the library
  \<^verbatim>\<open>path-to-regexp\<close> and are parameters here.  \<^verbatim>\<open>match\<close> takes a path pattern or
  a regular expression and yields the matcher \<^verbatim>\<open>matchUrl\<close> (\<open>None\<close> for its result
  \<^verbatim>\<open>false\<close>, else the parameters of the match); \<^verbatim>\<open>compile\<close> yields the
  function \<^verbatim>\<open>toPath\<close>.  Each of them may throw, which is the left summand.
\<close>

datatype pattern = PathPattern string | RegExpPattern string

record ('p, 'e) rewriteRule =
  toPath :: "'p \<Rightarrow> 'e + string"
  matchUrl :: "string \<Rightarrow> 'p option"

text \<open>
  \<^verbatim>\<open>Object.entries(userRewrites || {}).map(([from, to]) => ({ toPath: compile(`/${to}`, ...),
  matchUrl: match(from.startsWith('^') ? new RegExp(from) : from) }))\<close>
\<close>

fun compileRules ::
  "(string \<Rightarrow> 'e + ('p \<Rightarrow> 'e + string)) \<Rightarrow> (pattern \<Rightarrow> 'e + (string \<Rightarrow> 'p option))
   \<Rightarrow> (string \<times> string) list \<Rightarrow> 'e + ('p, 'e) rewriteRule list" where
  "compileRules compile match [] = Inr []"
| "compileRules compile match ((from, to) # rest) =
     (case compile (CHR ''/'' # to) of
        Inl e \<Rightarrow> Inl e
      | Inr tp \<Rightarrow>
          (case match (if startsWith from ''^'' then RegExpPattern from else PathPattern from) of
             Inl e \<Rightarrow> Inl e
           | Inr mu \<Rightarrow>
               (case compileRules compile match rest of
                  Inl e \<Rightarrow> Inl e
                | Inr rules \<Rightarrow> Inr (\<lparr>toPath = tp, matchUrl = mu\<rparr> # rules))))"

text \<open>
  The inner loop over the rules for one page: the first rule whose matcher accepts
  the page computes the destination and ends the loop with \<^verbatim>\<open>break\<close>.
\<close>

fun rewritePage ::
  "('p, 'e) rewriteRule list \<Rightarrow> string
   \<Rightarrow> (string \<rightharpoonup> string) \<times> (string \<rightharpoonup> string)
   \<Rightarrow> 'e + (string \<rightharpoonup> string) \<times> (string \<rightharpoonup> string)" where
  "rewritePage [] page (pageToRewrite, rewriteToPage) = Inr (pageToRewrite, rewriteToPage)"
| "rewritePage (rule # rules) page (pageToRewrite, rewriteToPage) =
     (case matchUrl rule page of
        None \<Rightarrow> rewritePage rules page (pageToRewrite, rewriteToPage)
      | Some params \<Rightarrow>
          (case toPath rule params of
             Inl e \<Rightarrow> Inl e
           | Inr s \<Rightarrow>
               let dest = drop 1 s
               in Inr (pageToRewrite(page \<mapsto> dest), rewriteToPage(dest \<mapsto> page))))"

text \<open>The outer loop over the pages.\<close>

fun rewritePages ::
  "('p, 'e) rewriteRule list \<Rightarrow> string list
   \<Rightarrow> (string \<rightharpoonup> string) \<times> (string \<rightharpoonup> string)
   \<Rightarrow> 'e + (string \<rightharpoonup> string) \<times> (string \<rightharpoonup> string)" where
  "rewritePages rules [] maps = Inr maps"
| "rewritePages rules (page # pages) maps =
     (case rewritePage rules page maps of
        Inl e \<Rightarrow> Inl e
      | Inr maps' \<Rightarrow> rewritePages rules pages maps')"

text \<open>The result pair is \<^verbatim>\<open>(map, inv)\<close>.\<close>

definition resolveRewrites ::
  "(string \<Rightarrow> 'e + ('p \<Rightarrow> 'e + string)) \<Rightarrow> (pattern \<Rightarrow> 'e + (string \<Rightarrow> 'p option))
   \<Rightarrow> string list \<Rightarrow> (string \<times> string) list
   \<Rightarrow> 'e + (string \<rightharpoonup> string) \<times> (string \<rightharpoonup> string)" where
  "resolveRewrites compile match pages userRewrites =
     (case compileRules compile match userRewrites of
        Inl e \<Rightarrow> Inl e
      | Inr rewriteRules \<Rightarrow>
          if rewriteRules \<noteq> [] then rewritePages rewriteRules pages (Map.empty, Map.empty)
          else Inr (Map.empty, Map.empty))"

text \<open>
  For the statement of first-match-wins: what the first rule of the list that
  matches the page computes (\<open>None\<close> when no rule matches).
\<close>

fun firstMatch :: "('p, 'e) rewriteRule list \<Rightarrow> string \<Rightarrow> ('e + string) option" where
  "firstMatch [] page = None"
| "firstMatch (rule # rules) page =
     (case matchUrl rule page of
        None \<Rightarrow> firstMatch rules page
      | Some params \<Rightarrow> Some (toPath rule params))"

text \<open>Reading the two result mappings: \<^verbatim>\<open>rewrites.map[page]\<close> and \<^verbatim>\<open>rewrites.inv[dest]\<close>.\<close>

definition rewrites_map ::
  "'e + (string \<rightharpoonup> string) \<times> (string \<rightharpoonup> string) \<Rightarrow> string \<Rightarrow> string option" where
  "rewrites_map r page = (case r of Inl e \<Rightarrow> None | Inr (m, iv) \<Rightarrow> m page)"

definition rewrites_inv ::
  "'e + (string \<rightharpoonup> string) \<times> (string \<rightharpoonup> string) \<Rightarrow> string \<Rightarrow> string option" where
  "rewrites_inv r dest = (case r of Inl e \<Rightarrow> None | Inr (m, iv) \<Rightarrow> iv dest)"

text \<open>
  A stand-in for the library on rules without parameters, for concrete runs: a
  path pattern matches the page spelled exactly like it, and the compiled target
  is the target text.
\<close>

definition literalMatch :: "pattern \<Rightarrow> unit + (string \<Rightarrow> unit option)" where
  "literalMatch pat =
     (case pat of
        PathPattern s \<Rightarrow> Inr (\<lambda>page. if page = s then Some () else None)
      | RegExpPattern s \<Rightarrow> Inl ())"

definition literalCompile :: "string \<Rightarrow> unit + (unit \<Rightarrow> unit + string)" where
  "literalCompile target = Inr (\<lambda>params. Inr target)"

section \<open>Pages and dynamic routes: \<^verbatim>\<open>resolvePages\<close>\<close>











section \<open>Links that are treated as pages: \<^verbatim>\<open>treatAsHtml\<close>\<close>

text \<open>\<^verbatim>\<open>s.split(c)\<close> for a separator of one character: never the empty list.\<close>

fun splitOn :: "char \<Rightarrow> string \<Rightarrow> string list" where
  "splitOn sep [] = [[]]"
| "splitOn sep (c # cs) =
     (if c = sep then [] # splitOn sep cs
      else (case splitOn sep cs of
              [] \<Rightarrow> [[c]]
            | part # parts \<Rightarrow> (c # part) # parts))"

text \<open>\<^verbatim>\<open>toLowerCase\<close> on the letters \<^verbatim>\<open>A\<close> to \<^verbatim>\<open>Z\<close>; other characters are kept.\<close>

definition toLowerChar :: "char \<Rightarrow> char" where
  "toLowerChar c =
     (if CHR ''A'' \<le> c \<and> c \<le> CHR ''Z'' then char_of (of_char c + (32::nat)) else c)"

definition toLowerCase :: "string \<Rightarrow> string" where
  "toLowerCase s = map toLowerChar s"

text \<open>
  The set \<^verbatim>\<open>KNOWN_EXTENSIONS\<close> as the first call fills it: the built-in list, and
  the value of the environment variable \<^verbatim>\<open>VITE_EXTRA_EXTENSIONS\<close> (the argument
  \<open>extraExts\<close>, empty when unset) appended after a comma.
\<close>

definition builtinExtensions :: string where
  "builtinExtensions =
     ''3g2,3gp,aac,ai,apng,au,avif,bin,bmp,cer,class,conf,crl,css,csv,dll,'' @
     ''doc,eps,epub,exe,gif,gz,ics,ief,jar,jpe,jpeg,jpg,js,json,jsonld,m4a,'' @
     ''man,mid,midi,mjs,mov,mp2,mp3,mp4,mpe,mpeg,mpg,mpp,oga,ogg,ogv,ogx,'' @
     ''opus,otf,p10,p7c,p7m,p7s,pdf,png,ps,qt,roff,rtf,rtx,ser,svg,t,tif,'' @
     ''tiff,tr,ts,tsv,ttf,txt,vtt,wav,weba,webm,webp,woff,woff2,xhtml,xml,'' @
     ''yaml,yml,zip''"

definition KNOWN_EXTENSIONS :: "string \<Rightarrow> string set" where
  "KNOWN_EXTENSIONS extraExts =
     set (splitOn CHR '',''
       (builtinExtensions @ (if extraExts \<noteq> [] then CHR '','' # extraExts else [])))"

definition treatAsHtml :: "string \<Rightarrow> string \<Rightarrow> bool" where
  "treatAsHtml extraExts filename =
     (let ext = last (splitOn CHR ''.'' filename)
      in toLowerCase ext \<notin> KNOWN_EXTENSIONS extraExts)"

section \<open>Dead links: the link check of \<^verbatim>\<open>createMarkdownToVueRenderFn\<close>\<close>

text \<open>
  The setting \<^verbatim>\<open>ignoreDeadLinks\<close>: a boolean, the word \<^verbatim>\<open>localhostLinks\<close>, or a
  list whose entries are strings, regular expressions or functions.  A regular
  expression and a function are given by the test they perform on a link; an
  entry of any other type is \<open>IgnoreOther\<close>.  \<open>None\<close> is an unset option.
\<close>

datatype ignoreEntry =
    IgnoreString string
  | IgnoreRegExp "string \<Rightarrow> bool"
  | IgnoreFunction "string \<Rightarrow> bool"
  | IgnoreOther

datatype ignoreDeadLinks =
    IgnoreBool bool
  | LocalhostLinks
  | IgnoreList "ignoreEntry list"

text \<open>
  \<^verbatim>\<open>url.replace(EXTERNAL_URL_RE, '')\<close> with
  \<^verbatim>\<open>EXTERNAL_URL_RE = /^(?:[a-z]+:|\/\/)/i\<close>: a leading run of letters with a
  colon after it is removed, else two leading slashes.
\<close>

definition isLetter :: "char \<Rightarrow> bool" where
  "isLetter c \<longleftrightarrow>
     (CHR ''a'' \<le> c \<and> c \<le> CHR ''z'') \<or> (CHR ''A'' \<le> c \<and> c \<le> CHR ''Z'')"

definition removeExternalPrefix :: "string \<Rightarrow> string" where
  "removeExternalPrefix url =
     (if takeWhile isLetter url \<noteq> [] \<and> startsWith (dropWhile isLetter url) '':''
      then drop 1 (dropWhile isLetter url)
      else if startsWith url ''//'' then drop 2 url
      else url)"

text \<open>
  \<^verbatim>\<open>shouldIgnoreDeadLink\<close>; the first argument is
  \<^verbatim>\<open>siteConfig?.ignoreDeadLinks\<close>.
\<close>

fun shouldIgnoreDeadLink :: "ignoreDeadLinks option \<Rightarrow> string \<Rightarrow> bool" where
  "shouldIgnoreDeadLink None url = False"
| "shouldIgnoreDeadLink (Some (IgnoreBool False)) url = False"
| "shouldIgnoreDeadLink (Some (IgnoreBool True)) url = True"
| "shouldIgnoreDeadLink (Some LocalhostLinks) url =
     startsWith (removeExternalPrefix url) ''//localhost''"
| "shouldIgnoreDeadLink (Some (IgnoreList entries)) url =
     list_ex (\<lambda>ignore. case ignore of
                 IgnoreString s \<Rightarrow> url = s
               | IgnoreRegExp test \<Rightarrow> test url
               | IgnoreFunction f \<Rightarrow> f url
               | IgnoreOther \<Rightarrow> False) entries"

text \<open>
  \<^verbatim>\<open>url.replace(/[?#].*$/, '')\<close>: the text from the first question mark or hash
  sign on is dropped, when no line break follows that sign (the dot does not match
  a line break).
\<close>

definition isLineTerminator :: "char \<Rightarrow> bool" where
  "isLineTerminator c \<longleftrightarrow> c = CHR 0x0A \<or> c = CHR 0x0D"

fun removeHashOrQuery :: "string \<Rightarrow> string" where
  "removeHashOrQuery [] = []"
| "removeHashOrQuery (c # cs) =
     (if (c = CHR ''?'' \<or> c = CHR ''#'') \<and> \<not> list_ex isLineTerminator cs then []
      else c # removeHashOrQuery cs)"

text \<open>\<^verbatim>\<open>url.replace(/\.(html|md)$/, '')\<close>\<close>

definition removeHtmlOrMd :: "string \<Rightarrow> string" where
  "removeHtmlOrMd url =
     (if endsWith url ''.html'' then take (length url - 5) url
      else if endsWith url ''.md'' then take (length url - 3) url
      else url)"

text \<open>\<^verbatim>\<open>slash\<close>: every backslash becomes a slash.\<close>

definition slash :: "string \<Rightarrow> string" where
  "slash p = map (\<lambda>c. if c = CHR 0x5C then CHR ''/'' else c) p"

text \<open>
  What the check takes from outside: the \<^verbatim>\<open>pathname\<close> of
  \<^verbatim>\<open>new URL(url, 'http://a.com')\<close> and \<^verbatim>\<open>decodeURIComponent\<close>, both of which may
  throw; \<^verbatim>\<open>path.relative(srcDir, path.resolve(dir, url))\<close>; whether
  \<^verbatim>\<open>resolved.html\<close> exists in the public directory; the page list with
  \<^verbatim>\<open>.md\<close> removed; the inverse rewrite mapping; the setting
  \<^verbatim>\<open>ignoreDeadLinks\<close>; the value of \<^verbatim>\<open>VITE_EXTRA_EXTENSIONS\<close>; and the name under
  which the file is reported.
\<close>

record 'e linkEnv =
  urlPathname :: "string \<Rightarrow> 'e + string"
  decodeURIComponent :: "string \<Rightarrow> 'e + string"
  resolveRelative :: "string \<Rightarrow> string"
  existsInPublic :: "string \<Rightarrow> bool"
  sitePages :: "string list"
  rewritesInv :: "string \<rightharpoonup> string"
  ignoreSetting :: "ignoreDeadLinks option"
  extraExtensions :: string
  reportedFile :: string

text \<open>
  The link as the loop rewrites it before looking it up (the variable \<^verbatim>\<open>url\<close> after
  its reassignments): hash and query removed, then a final \<^verbatim>\<open>.html\<close> or \<^verbatim>\<open>.md\<close>,
  and \<^verbatim>\<open>index\<close> appended after a final slash.
\<close>

definition normalizedUrl :: "string \<Rightarrow> string" where
  "normalizedUrl link =
     (let url = removeHtmlOrMd (removeHashOrQuery link)
      in if endsWith url ''/'' then url @ ''index'' else url)"

text \<open>The variable \<^verbatim>\<open>resolved\<close>: the page the link points to.\<close>

definition resolvedPage :: "'e linkEnv \<Rightarrow> string \<Rightarrow> 'e + string" where
  "resolvedPage env url =
     (case decodeURIComponent env
             (slash (if startsWith url ''/'' then drop 1 url else resolveRelative env url)) of
        Inl e \<Rightarrow> Inl e
      | Inr decoded \<Rightarrow>
          (case rewritesInv env (decoded @ ''.md'') of
             None \<Rightarrow> Inr decoded
           | Some original \<Rightarrow>
               if take (length original - 3) original \<noteq> []
               then Inr (take (length original - 3) original)
               else Inr decoded))"

text \<open>
  The body of the loop over the links of a page: \<open>Inr None\<close> when nothing is
  recorded, \<open>Inr (Some (url, file))\<close> for a recorded dead link.
\<close>

definition checkLink :: "'e linkEnv \<Rightarrow> string \<Rightarrow> 'e + (string \<times> string) option" where
  "checkLink env link =
     (case urlPathname env link of
        Inl e \<Rightarrow> Inl e
      | Inr pathname \<Rightarrow>
          if \<not> treatAsHtml (extraExtensions env) pathname then Inr None
          else
            (case resolvedPage env (normalizedUrl link) of
               Inl e \<Rightarrow> Inl e
             | Inr resolved \<Rightarrow>
                 if resolved \<notin> set (sitePages env)
                    \<and> \<not> existsInPublic env resolved
                    \<and> \<not> shouldIgnoreDeadLink (ignoreSetting env) (normalizedUrl link)
                 then Inr (Some (normalizedUrl link, reportedFile env))
                 else Inr None))"

text \<open>The loop: the dead links of a page, in the order of its links.\<close>

fun checkLinks :: "'e linkEnv \<Rightarrow> string list \<Rightarrow> 'e + (string \<times> string) list" where
  "checkLinks env [] = Inr []"
| "checkLinks env (link # links) =
     (case checkLink env link of
        Inl e \<Rightarrow> Inl e
      | Inr found \<Rightarrow>
          (case checkLinks env links of
             Inl e \<Rightarrow> Inl e
           | Inr deadLinks \<Rightarrow>
               Inr ((case found of None \<Rightarrow> [] | Some d \<Rightarrow> [d]) @ deadLinks)))"

section \<open>Dead links: the hook \<^verbatim>\<open>renderStart\<close>\<close>





text \<open>
  A setting for concrete runs: a file at the root of the source directory of a site
  with the pages \<^verbatim>\<open>index\<close> and \<^verbatim>\<open>guide/start\<close>, an empty public directory and no
  rewrites; the arguments are the setting \<^verbatim>\<open>ignoreDeadLinks\<close> and the pathname of
  the link under test.
\<close>

definition exampleEnv :: "ignoreDeadLinks option \<Rightarrow> string \<Rightarrow> unit linkEnv" where
  "exampleEnv policy pathname =
     \<lparr>urlPathname = (\<lambda>link. Inr pathname),
      decodeURIComponent = Inr,
      resolveRelative = (\<lambda>url. url),
      existsInPublic = (\<lambda>resolved. False),
      sitePages = [''index'', ''guide/start''],
      rewritesInv = Map.empty,
      ignoreSetting = policy,
      extraExtensions = '''',
      reportedFile = ''index.md''\<rparr>"

section \<open>Page chunks of the client bundle: \<^verbatim>\<open>generateBundle\<close>\<close>






definition STATIC_START :: string where
  "STATIC_START = ''__VP_STATIC_START__''"

definition STATIC_END :: string where
  "STATIC_END = ''__VP_STATIC_END__''"

definition isQuote :: "char \<Rightarrow> bool" where
  "isQuote c \<longleftrightarrow> c = CHR 0x27 \<or> c = CHR 0x22 \<or> c = CHR 0x60"

text \<open>
  The lazy middle part of \<^verbatim>\<open>staticStripRE\<close>: the text after the first end marker
  that has a quote character behind it.
\<close>

fun afterStaticEnd :: "string \<Rightarrow> string option" where
  "afterStaticEnd [] = None"
| "afterStaticEnd (c # cs) =
     (if prefix STATIC_END (c # cs)
         \<and> (case drop (length STATIC_END) (c # cs) of [] \<Rightarrow> False | q # r \<Rightarrow> isQuote q)
      then Some (drop (length STATIC_END + 1) (c # cs))
      else afterStaticEnd cs)"

text \<open>
  \<^verbatim>\<open>code.replace(staticStripRE, `""`)\<close> with
  \<^verbatim>\<open>staticStripRE = /['"`]__VP_STATIC_START__[^]*?__VP_STATIC_END__['"`]/g\<close>
\<close>

function stripStatic :: "string \<Rightarrow> string" where
  "stripStatic [] = []"
| "stripStatic (c # cs) =
     (if isQuote c \<and> prefix STATIC_START cs
      then (case afterStaticEnd (drop (length STATIC_START) cs) of
              Some rest \<Rightarrow> [CHR 0x22, CHR 0x22] @ stripStatic rest
            | None \<Rightarrow> c # stripStatic cs)
      else c # stripStatic cs)"
  by pat_completeness auto
termination
proof (relation "measure length")
  have shorter: "afterStaticEnd s = Some r \<Longrightarrow> length r \<le> length s" for s r
    by (induction s) (auto split: if_splits)
  fix c :: char and cs rest
  assume "afterStaticEnd (drop (length STATIC_START) cs) = Some rest"
  then have "length rest \<le> length (drop (length STATIC_START) cs)"
    by (rule shorter)
  then show "(rest, c # cs) \<in> measure length" by simp
qed simp_all

text \<open>
  \<^verbatim>\<open>code.replace(staticRestoreRE, '')\<close> with
  \<^verbatim>\<open>staticRestoreRE = /__VP_STATIC_(START|END)__/g\<close>
\<close>

function restoreStatic :: "string \<Rightarrow> string" where
  "restoreStatic [] = []"
| "restoreStatic (c # cs) =
     (if prefix STATIC_START (c # cs) then restoreStatic (drop (length STATIC_START) (c # cs))
      else if prefix STATIC_END (c # cs) then restoreStatic (drop (length STATIC_END) (c # cs))
      else c # restoreStatic cs)"
  by pat_completeness auto
termination
  by (relation "measure length") (auto simp: STATIC_START_def STATIC_END_def)









section \<open>The client router: \<^verbatim>\<open>loadPage\<close>\<close>

text \<open>
  The Route record.  Its data is the page data of a loaded module or
  \<^verbatim>\<open>notFoundPageData\<close> with a \<^verbatim>\<open>relativePath\<close> of its own; its component is
  \<open>None\<close> for \<^verbatim>\<open>null\<close>.
\<close>

datatype 'd routeData = PageData 'd | NotFoundPageData string

record ('c, 'd) Route =
  route_path :: string
  route_component :: "'c option"
  route_data :: "'d routeData"

definition getDefaultRoute :: "('c, 'd) Route" where
  "getDefaultRoute =
     \<lparr>route_path = ''/'', route_component = None, route_data = NotFoundPageData ''404.md''\<rparr>"

text \<open>
  \<^verbatim>\<open>loadPage\<close> is an asynchronous function.  A call runs from one \<^verbatim>\<open>await\<close> to the
  next without interruption, and the calls in flight interleave at these points.
  A call is therefore a record of where it waits: for the hook
  \<^verbatim>\<open>onBeforePageLoad\<close>, for the module import, for the hash map, or not any more.
  The flag of the first two is \<^verbatim>\<open>isRetry\<close>; the retry is the inner call
  \<^verbatim>\<open>loadPage(href, scrollPosition, true)\<close>, which the outer call awaits and after which
  it returns.  The two counters record how often the call has invoked
  \<^verbatim>\<open>loadPageModule\<close> and \<^verbatim>\<open>fetch\<close>.
\<close>

datatype outcome = Returned | Rejected

datatype phase = AwaitHook bool | AwaitImport bool | AwaitFetch | Finished outcome

record loadCall =
  call_href :: string
  call_phase :: phase
  call_imports :: nat
  call_fetches :: nat

text \<open>
  What the environment answers at an \<^verbatim>\<open>await\<close>: the hook lets the load proceed (also
  when no hook is set), cancels it with \<^verbatim>\<open>false\<close>, or throws; the import yields a
  module (whose default export may be missing) or \<^verbatim>\<open>null\<close>, or is rejected; the
  fetch of \<^verbatim>\<open>hashmap.json\<close> yields a hash map or fails.
\<close>

datatype hookResult = Proceed | Cancel | HookThrows

datatype ('c, 'd) importResult = Module "'c option" 'd | NoModule | ImportRejects

datatype ('c, 'd) event =
    Start nat string
  | HookDone nat hookResult
  | ImportDone nat "('c, 'd) importResult"
  | FetchDone nat "(string \<rightharpoonup> string) option"

record ('c, 'd) RouterState =
  rs_route :: "('c, 'd) Route"
  rs_latestPendingPath :: "string option"
  rs_hashMap :: "string \<rightharpoonup> string"
  rs_calls :: "nat \<rightharpoonup> loadCall"

text \<open>
  The router's surroundings: \<^verbatim>\<open>inBrowser\<close>, \<^verbatim>\<open>withBase\<close>, the pathname of
  \<^verbatim>\<open>new URL(href, fakeHost)\<close> and the fallback component of \<^verbatim>\<open>createRouter\<close>.
\<close>

record 'c RouterEnv =
  env_inBrowser :: bool
  env_withBase :: "string \<Rightarrow> string"
  env_pathname :: "string \<Rightarrow> string"
  env_fallbackComponent :: "'c option"

definition createRouter :: "(string \<rightharpoonup> string) \<Rightarrow> ('c, 'd) RouterState" where
  "createRouter hashMap =
     \<lparr>rs_route = getDefaultRoute, rs_latestPendingPath = None, rs_hashMap = hashMap,
      rs_calls = Map.empty\<rparr>"

text \<open>
  \<^verbatim>\<open>pendingPath.replace(/(^|\/)$/, '$1index').replace(/(\.html)?$/, '.md').replace(/^\//, '')\<close>
\<close>

definition notFoundRelativePath :: "string \<Rightarrow> string" where
  "notFoundRelativePath pendingPath =
     (let p1 = (if pendingPath = [] \<or> endsWith pendingPath ''/''
                then pendingPath @ ''index'' else pendingPath);
          p2 = (if endsWith p1 ''.html'' then take (length p1 - 5) p1 @ ''.md''
                else p1 @ ''.md'')
      in if startsWith p2 ''/'' then drop 1 p2 else p2)"

definition routePath :: "'c RouterEnv \<Rightarrow> string \<Rightarrow> string" where
  "routePath env pendingPath =
     (if env_inBrowser env then pendingPath else env_withBase env pendingPath)"

text \<open>The Route after a load that succeeded, and after one that failed for good.\<close>

definition loadedRoute :: "'c RouterEnv \<Rightarrow> string \<Rightarrow> 'c \<Rightarrow> 'd \<Rightarrow> ('c, 'd) Route" where
  "loadedRoute env pendingPath c pageData =
     \<lparr>route_path = routePath env pendingPath,
      route_component = Some c,
      route_data = PageData pageData\<rparr>"

definition notFoundRoute :: "'c RouterEnv \<Rightarrow> string \<Rightarrow> ('c, 'd) Route" where
  "notFoundRoute env pendingPath =
     \<lparr>route_path = routePath env pendingPath,
      route_component = env_fallbackComponent env,
      route_data = NotFoundPageData
        (if env_inBrowser env then notFoundRelativePath pendingPath else ''404.md'')\<rparr>"

text \<open>The last block of the \<^verbatim>\<open>catch\<close> clause.\<close>

definition setNotFound ::
  "'c RouterEnv \<Rightarrow> string \<Rightarrow> ('c, 'd) RouterState \<Rightarrow> ('c, 'd) RouterState" where
  "setNotFound env pendingPath st =
     (if rs_latestPendingPath st = Some pendingPath
      then st\<lparr>rs_latestPendingPath := None, rs_route := notFoundRoute env pendingPath\<rparr>
      else st)"

definition finish ::
  "nat \<Rightarrow> loadCall \<Rightarrow> outcome \<Rightarrow> ('c, 'd) RouterState \<Rightarrow> ('c, 'd) RouterState" where
  "finish i call out st =
     st\<lparr>rs_calls := (rs_calls st)(i \<mapsto> call\<lparr>call_phase := Finished out\<rparr>)\<rparr>"

text \<open>
  The \<^verbatim>\<open>catch\<close> clause after an error of the \<^verbatim>\<open>try\<close> block: a first attempt
  fetches the hash map; a retry goes to the last block and returns.
\<close>

definition catchLoadError ::
  "'c RouterEnv \<Rightarrow> nat \<Rightarrow> loadCall \<Rightarrow> bool \<Rightarrow> ('c, 'd) RouterState \<Rightarrow> ('c, 'd) RouterState" where
  "catchLoadError env i call isRetry st =
     (if \<not> isRetry
      then st\<lparr>rs_calls := (rs_calls st)
                 (i \<mapsto> call\<lparr>call_phase := AwaitFetch, call_fetches := call_fetches call + 1\<rparr>)\<rparr>
      else finish i call Returned (setNotFound env (env_pathname env (call_href call)) st))"

text \<open>
  One step of the router: a call starts, or the call \<open>i\<close> receives the answer it
  waits for and runs to its next \<^verbatim>\<open>await\<close> or to its end.  An event that no call
  waits for changes nothing.
\<close>

fun step :: "'c RouterEnv \<Rightarrow> ('c, 'd) event \<Rightarrow> ('c, 'd) RouterState \<Rightarrow> ('c, 'd) RouterState" where
  "step env (Start i href) st =
     (if rs_calls st i \<noteq> None then st
      else st\<lparr>rs_calls := (rs_calls st)
                 (i \<mapsto> \<lparr>call_href = href, call_phase = AwaitHook False,
                         call_imports = 0, call_fetches = 0\<rparr>)\<rparr>)"
| "step env (HookDone i r) st =
     (case rs_calls st i of
        None \<Rightarrow> st
      | Some call \<Rightarrow>
          (case call_phase call of
             AwaitHook isRetry \<Rightarrow>
               (case r of
                  Cancel \<Rightarrow> finish i call Returned st
                | HookThrows \<Rightarrow>
                    if isRetry
                    then finish i call Returned
                           (setNotFound env (env_pathname env (call_href call)) st)
                    else finish i call Rejected st
                | Proceed \<Rightarrow>
                    st\<lparr>rs_latestPendingPath := Some (env_pathname env (call_href call)),
                       rs_calls := (rs_calls st)
                         (i \<mapsto> call\<lparr>call_phase := AwaitImport isRetry,
                                       call_imports := call_imports call + 1\<rparr>)\<rparr>)
           | _ \<Rightarrow> st))"
| "step env (ImportDone i r) st =
     (case rs_calls st i of
        None \<Rightarrow> st
      | Some call \<Rightarrow>
          (case call_phase call of
             AwaitImport isRetry \<Rightarrow>
               (let pendingPath = env_pathname env (call_href call)
                in case r of
                     NoModule \<Rightarrow> catchLoadError env i call isRetry st
                   | ImportRejects \<Rightarrow> catchLoadError env i call isRetry st
                   | Module component pageData \<Rightarrow>
                       if rs_latestPendingPath st = Some pendingPath
                       then (case component of
                               None \<Rightarrow>
                                 catchLoadError env i call isRetry
                                   (st\<lparr>rs_latestPendingPath := None\<rparr>)
                             | Some c \<Rightarrow>
                                 finish i call Returned
                                   (st\<lparr>rs_latestPendingPath := None,
                                       rs_route := loadedRoute env pendingPath c pageData\<rparr>))
                       else finish i call Returned st)
           | _ \<Rightarrow> st))"
| "step env (FetchDone i r) st =
     (case rs_calls st i of
        None \<Rightarrow> st
      | Some call \<Rightarrow>
          (case call_phase call of
             AwaitFetch \<Rightarrow>
               (case r of
                  Some hashMap \<Rightarrow>
                    st\<lparr>rs_hashMap := hashMap,
                       rs_calls := (rs_calls st)(i \<mapsto> call\<lparr>call_phase := AwaitHook True\<rparr>)\<rparr>
                | None \<Rightarrow>
                    finish i call Returned
                      (setNotFound env (env_pathname env (call_href call)) st))
           | _ \<Rightarrow> st))"

text \<open>A run of the router over a sequence of events.\<close>

fun run :: "'c RouterEnv \<Rightarrow> ('c, 'd) event list \<Rightarrow> ('c, 'd) RouterState \<Rightarrow> ('c, 'd) RouterState" where
  "run env [] st = st"
| "run env (e # es) st = run env es (step env e st)"

text \<open>
  The counters of a call agree with the place where it waits: this holds of a new
  call and every step keeps it.
\<close>

definition countersAgree :: "loadCall \<Rightarrow> bool" where
  "countersAgree call =
     (case call_phase call of
        AwaitHook isRetry \<Rightarrow>
          call_imports call = (if isRetry then 1 else 0)
          \<and> call_fetches call = (if isRetry then 1 else 0)
      | AwaitImport isRetry \<Rightarrow>
          call_imports call = (if isRetry then 2 else 1)
          \<and> call_fetches call = (if isRetry then 1 else 0)
      | AwaitFetch \<Rightarrow> call_imports call = 1 \<and> call_fetches call = 1
      | Finished out \<Rightarrow> call_imports call \<le> 2 \<and> call_fetches call \<le> 1)"

text \<open>
  A router for concrete runs: in the browser, hrefs that are their own pathname,
  components and page data given by name.
\<close>

definition exampleRouter :: "string RouterEnv" where
  "exampleRouter =
     \<lparr>env_inBrowser = True, env_withBase = (\<lambda>p. p), env_pathname = (\<lambda>href. href),
      env_fallbackComponent = Some ''NotFound''\<rparr>"

chapter \<open>Verified properties\<close>

section \<open>String substitution\<close>



lemma substituteAll_none:
  "\<not> includesStr s pat \<Longrightarrow> substituteAll pat new s = s"
  by (induction pat new s rule: substituteAll.induct) auto

section \<open>Head tags\<close>

text \<open>
  Claim C9.  \<^verbatim>\<open>mergeHead\<close> returns the tags of the earlier list that survive, followed
  by all tags of the later list.  A tag of the earlier list is dropped exactly when
  it is a \<^verbatim>\<open>meta\<close> tag with at least one attribute and some \<^verbatim>\<open>meta\<close> tag of the later
  list carries, under the key of that first attribute, the same value.  Hence the
  tags that are not \<^verbatim>\<open>meta\<close> tags are all kept, in order and with their multiplicity,
  also when the later list holds an identical tag.
\<close>

theorem mergeHead_only_drops_meta:
  "mergeHead prev cur =
     filter (\<lambda>t. \<not> (tagType t = ''meta'' \<and>
               (\<exists>k v rest. tagAttrs t = (k, v) # rest \<and>
                  (\<exists>c \<in> set cur. tagType c = ''meta'' \<and> map_of (tagAttrs c) k = Some v))))
       prev @ cur
   \<and> filter (\<lambda>t. tagType t \<noteq> ''meta'') (mergeHead prev cur) =
       filter (\<lambda>t. tagType t \<noteq> ''meta'') prev @ filter (\<lambda>t. tagType t \<noteq> ''meta'') cur"
proof
  have drop_iff: "hasTag cur t \<longleftrightarrow>
      (tagType t = ''meta'' \<and>
        (\<exists>k v rest. tagAttrs t = (k, v) # rest \<and>
           (\<exists>c \<in> set cur. tagType c = ''meta'' \<and> map_of (tagAttrs c) k = Some v)))" for t
    by (cases "tagAttrs t") (auto simp: hasTag_def list_ex_iff)
  show "mergeHead prev cur =
     filter (\<lambda>t. \<not> (tagType t = ''meta'' \<and>
               (\<exists>k v rest. tagAttrs t = (k, v) # rest \<and>
                  (\<exists>c \<in> set cur. tagType c = ''meta'' \<and> map_of (tagAttrs c) k = Some v))))
       prev @ cur"
    unfolding mergeHead_def by (simp add: drop_iff)
  have keep: "tagType t \<noteq> ''meta'' \<Longrightarrow> \<not> hasTag cur t" for t
    by (simp add: hasTag_def)
  show "filter (\<lambda>t. tagType t \<noteq> ''meta'') (mergeHead prev cur) =
       filter (\<lambda>t. tagType t \<noteq> ''meta'') prev @ filter (\<lambda>t. tagType t \<noteq> ''meta'') cur"
    unfolding mergeHead_def by (auto simp: keep intro: filter_cong)
qed

text \<open>
  An instance: the \<^verbatim>\<open>link\<close> tag stays although the later list repeats it; the
  \<^verbatim>\<open>meta\<close> tag named \<open>a\<close> is replaced by the later one, whose \<open>name\<close>
  attribute is not its first.
\<close>

theorem mergeHead_only_drops_meta_witness:
  "mergeHead
     [\<lparr>tagType = ''link'', tagAttrs = [(''rel'', ''icon'')], tagContent = None\<rparr>,
      \<lparr>tagType = ''meta'', tagAttrs = [(''name'', ''a''), (''content'', ''x'')], tagContent = None\<rparr>]
     [\<lparr>tagType = ''link'', tagAttrs = [(''rel'', ''icon'')], tagContent = None\<rparr>,
      \<lparr>tagType = ''meta'', tagAttrs = [(''content'', ''y''), (''name'', ''a'')], tagContent = None\<rparr>]
   = [\<lparr>tagType = ''link'', tagAttrs = [(''rel'', ''icon'')], tagContent = None\<rparr>,
      \<lparr>tagType = ''link'', tagAttrs = [(''rel'', ''icon'')], tagContent = None\<rparr>,
      \<lparr>tagType = ''meta'', tagAttrs = [(''content'', ''y''), (''name'', ''a'')], tagContent = None\<rparr>]"
  using mergeHead_only_drops_meta
    [of "[\<lparr>tagType = ''link'', tagAttrs = [(''rel'', ''icon'')], tagContent = None\<rparr>,
          \<lparr>tagType = ''meta'', tagAttrs = [(''name'', ''a''), (''content'', ''x'')], tagContent = None\<rparr>]"
        "[\<lparr>tagType = ''link'', tagAttrs = [(''rel'', ''icon'')], tagContent = None\<rparr>,
          \<lparr>tagType = ''meta'', tagAttrs = [(''content'', ''y''), (''name'', ''a'')], tagContent = None\<rparr>]"]
  by simp

section \<open>Page titles\<close>







section \<open>The page-module loader\<close>

lemma length_loads: "length (loads b rs st) = length rs"
  by (induction rs arbitrary: st) (auto split: prod.splits)

lemma loads_later:
  assumes "\<not> isInitialPageLoad st" "i < length rs" "rs ! i = Some f" "f \<noteq> []"
  shows "loads True rs st ! i = Some (if initialPath st = Some f then leanFile f else f)"
  using assms
proof (induction rs arbitrary: st i)
  case Nil
  then show ?case by simp
next
  case (Cons r rs)
  obtain m st' where step: "loadPageModule True r st = (m, st')" by force
  from Cons.prems(1) step have st': "\<not> isInitialPageLoad st'" "initialPath st' = initialPath st"
    by (auto simp: loadPageModule_def Let_def split: option.splits if_splits)
  show ?case
  proof (cases i)
    case 0
    with Cons.prems step show ?thesis
      by (auto simp: loadPageModule_def Let_def split: option.splits if_splits)
  next
    case (Suc j)
    with Cons.prems have "j < length rs" "rs ! j = Some f" by auto
    from Cons.IH[OF st'(1) this \<open>f \<noteq> []\<close>] st'(2) step Suc show ?thesis by simp
  qed
qed

lemma loads_first_or_initial:
  assumes "i < length rs" and "rs ! i = Some f" and "f \<noteq> []"
  shows "loads True rs (newRouter True) ! i =
           Some (if i = 0 \<or> rs ! 0 = Some f then leanFile f else f)"
proof (cases rs)
  case Nil
  with assms show ?thesis by simp
next
  case (Cons r rs')
  obtain m st' where step: "loadPageModule True r (newRouter True) = (m, st')" by force
  then have st': "\<not> isInitialPageLoad st'"
    "initialPath st' = (case r of None \<Rightarrow> None | Some g \<Rightarrow> if g = [] then None else Some g)"
    by (auto simp: loadPageModule_def newRouter_def Let_def split: option.splits if_splits)
  show ?thesis
  proof (cases i)
    case 0
    with assms Cons step show ?thesis
      by (auto simp: loadPageModule_def newRouter_def Let_def split: option.splits if_splits)
  next
    case (Suc j)
    with assms Cons have j: "j < length rs'" "rs' ! j = Some f" by auto
    from loads_later[OF st'(1) j \<open>f \<noteq> []\<close>] st'(2) step Suc Cons assms(3) show ?thesis
      by (auto split: option.splits if_splits)
  qed
qed

lemma leanFile_js:
  assumes "endsWith f ''.js''"
  shows "leanFile f \<noteq> f \<and> endsWith (leanFile f) ''.lean.js''"
proof -
  from assms obtain p where f: "f = p @ ''.js''"
    by (auto simp: endsWith_def suffix_def)
  show ?thesis
    by (simp add: f leanFile_def endsWith_def suffix_def)
qed

text \<open>
  Claim C2.  In the browser, the \<open>i\<close>-th load of a session whose module path is \<open>f\<close>
  requests the lean file of \<open>f\<close> exactly when it is the first load of the session
  or \<open>f\<close> is the module path of the first load, and requests \<open>f\<close> itself
  otherwise; for a module path that ends in \<^verbatim>\<open>.js\<close> the lean file ends in
  \<^verbatim>\<open>.lean.js\<close> and differs from the full one.
\<close>

theorem lean_exactly_first_or_initial_path:
  assumes "i < length rs" and "rs ! i = Some f" and "f \<noteq> []"
  shows "loads True rs (newRouter True) ! i =
           Some (if i = 0 \<or> rs ! 0 = Some f then leanFile f else f)
         \<and> (endsWith f ''.js'' \<longrightarrow> leanFile f \<noteq> f \<and> endsWith (leanFile f) ''.lean.js'')"
  using loads_first_or_initial[OF assms] leanFile_js[of f] by blast

text \<open>Loading \<^verbatim>\<open>/a\<close>, then \<^verbatim>\<open>/b\<close>, then \<^verbatim>\<open>/a\<close> again: lean, full, lean.\<close>

theorem lean_exactly_first_or_initial_path_witness:
  "loads True [Some ''/assets/a.md.1f2e.js'', Some ''/assets/b.md.77aa.js'',
               Some ''/assets/a.md.1f2e.js''] (newRouter True) ! 0
     = Some ''/assets/a.md.1f2e.lean.js''
   \<and> loads True [Some ''/assets/a.md.1f2e.js'', Some ''/assets/b.md.77aa.js'',
               Some ''/assets/a.md.1f2e.js''] (newRouter True) ! 1
     = Some ''/assets/b.md.77aa.js''
   \<and> loads True [Some ''/assets/a.md.1f2e.js'', Some ''/assets/b.md.77aa.js'',
               Some ''/assets/a.md.1f2e.js''] (newRouter True) ! 2
     = Some ''/assets/a.md.1f2e.lean.js''"
  using lean_exactly_first_or_initial_path
          [of 0 "[Some ''/assets/a.md.1f2e.js'', Some ''/assets/b.md.77aa.js'',
                  Some ''/assets/a.md.1f2e.js'']" "''/assets/a.md.1f2e.js''"]
        lean_exactly_first_or_initial_path
          [of 1 "[Some ''/assets/a.md.1f2e.js'', Some ''/assets/b.md.77aa.js'',
                  Some ''/assets/a.md.1f2e.js'']" "''/assets/b.md.77aa.js''"]
        lean_exactly_first_or_initial_path
          [of 2 "[Some ''/assets/a.md.1f2e.js'', Some ''/assets/b.md.77aa.js'',
                  Some ''/assets/a.md.1f2e.js'']" "''/assets/a.md.1f2e.js''"]
  by (simp add: leanFile_def endsWith_def suffix_to_prefix)

section \<open>Rewrites\<close>

lemma firstMatch_None_iff:
  "firstMatch rules page = None \<longleftrightarrow> (\<forall>r \<in> set rules. matchUrl r page = None)"
  by (induction rules) (auto split: option.splits)

lemma firstMatch_Some_iff:
  "firstMatch rules page = Some x \<longleftrightarrow>
     (\<exists>pre r post ps. rules = pre @ r # post \<and> (\<forall>q \<in> set pre. matchUrl q page = None)
        \<and> matchUrl r page = Some ps \<and> x = toPath r ps)"
proof (induction rules)
  case Nil
  then show ?case by simp
next
  case (Cons a rules)
  show ?case
  proof (cases "matchUrl a page")
    case None
    have "(\<exists>pre r post ps. a # rules = pre @ r # post \<and> (\<forall>q \<in> set pre. matchUrl q page = None)
        \<and> matchUrl r page = Some ps \<and> x = toPath r ps) \<longleftrightarrow>
      (\<exists>pre r post ps. rules = pre @ r # post \<and> (\<forall>q \<in> set pre. matchUrl q page = None)
        \<and> matchUrl r page = Some ps \<and> x = toPath r ps)" (is "?L \<longleftrightarrow> ?R")
    proof
      assume ?L
      then obtain pre r post ps where h: "a # rules = pre @ r # post"
        "\<forall>q \<in> set pre. matchUrl q page = None" "matchUrl r page = Some ps" "x = toPath r ps"
        by blast
      with None obtain pre' where "pre = a # pre'" by (cases pre) auto
      with h show ?R by auto
    next
      assume ?R
      then obtain pre r post ps where h: "rules = pre @ r # post"
        "\<forall>q \<in> set pre. matchUrl q page = None" "matchUrl r page = Some ps" "x = toPath r ps"
        by blast
      with None have "a # rules = (a # pre) @ r # post \<and> (\<forall>q \<in> set (a # pre). matchUrl q page = None)"
        by simp
      with h show ?L by blast
    qed
    with None Cons.IH show ?thesis by simp
  next
    case (Some ps)
    have "(\<exists>pre r post ps'. a # rules = pre @ r # post \<and> (\<forall>q \<in> set pre. matchUrl q page = None)
        \<and> matchUrl r page = Some ps' \<and> x = toPath r ps') \<longleftrightarrow> x = toPath a ps" (is "?L \<longleftrightarrow> ?R")
    proof
      assume ?L
      then obtain pre r post ps' where h: "a # rules = pre @ r # post"
        "\<forall>q \<in> set pre. matchUrl q page = None" "matchUrl r page = Some ps'" "x = toPath r ps'"
        by blast
      with Some have "pre = []" by (cases pre) auto
      with h Some show ?R by auto
    next
      assume ?R
      with Some have "a # rules = [] @ a # rules \<and> (\<forall>q \<in> set []. matchUrl q page = None)
         \<and> matchUrl a page = Some ps \<and> x = toPath a ps" by simp
      then show ?L by blast
    qed
    with Some show ?thesis by auto
  qed
qed

lemma rewritePage_firstMatch:
  "rewritePage rules page (m, iv) =
     (case firstMatch rules page of
        None \<Rightarrow> Inr (m, iv)
      | Some (Inl e) \<Rightarrow> Inl e
      | Some (Inr s) \<Rightarrow> Inr (m(page \<mapsto> drop 1 s), iv(drop 1 s \<mapsto> page)))"
  by (induction rules) (auto simp: Let_def split: option.splits sum.splits)

lemma rewritePages_map:
  assumes "rewritePages rules pages (m0, iv0) = Inr (m, iv)"
  shows "m p = (if p \<in> set pages
                then (case firstMatch rules p of
                        Some (Inr s) \<Rightarrow> Some (drop 1 s) | _ \<Rightarrow> m0 p)
                else m0 p)"
  using assms
proof (induction pages arbitrary: m0 iv0)
  case Nil
  then show ?case by simp
next
  case (Cons page pages)
  show ?case
  proof (cases "firstMatch rules page")
    case None
    with Cons.prems have "rewritePages rules pages (m0, iv0) = Inr (m, iv)"
      by (simp add: rewritePage_firstMatch)
    from Cons.IH[OF this] None show ?thesis by auto
  next
    case (Some x)
    show ?thesis
    proof (cases x)
      case (Inl e)
      with Some Cons.prems show ?thesis by (simp add: rewritePage_firstMatch)
    next
      case (Inr s)
      with Some Cons.prems have
        "rewritePages rules pages (m0(page \<mapsto> drop 1 s), iv0(drop 1 s \<mapsto> page)) = Inr (m, iv)"
        by (simp add: rewritePage_firstMatch)
      from Cons.IH[OF this] Some Inr show ?thesis
        by (cases "p = page") (auto split: option.splits sum.splits)
    qed
  qed
qed

lemma rewritePages_inv:
  assumes "rewritePages rules pages (m0, iv0) = Inr (m, iv)"
  shows "iv d = (case filter (\<lambda>p. \<exists>s. firstMatch rules p = Some (Inr s) \<and> drop 1 s = d) pages of
                   [] \<Rightarrow> iv0 d | ps \<Rightarrow> Some (last ps))"
  using assms
proof (induction pages arbitrary: m0 iv0)
  case Nil
  then show ?case by simp
next
  case (Cons page pages)
  show ?case
  proof (cases "firstMatch rules page")
    case None
    with Cons.prems have "rewritePages rules pages (m0, iv0) = Inr (m, iv)"
      by (simp add: rewritePage_firstMatch)
    from Cons.IH[OF this] None show ?thesis by simp
  next
    case (Some x)
    show ?thesis
    proof (cases x)
      case (Inl e)
      with Some Cons.prems show ?thesis by (simp add: rewritePage_firstMatch)
    next
      case (Inr s)
      with Some Cons.prems have
        "rewritePages rules pages (m0(page \<mapsto> drop 1 s), iv0(drop 1 s \<mapsto> page)) = Inr (m, iv)"
        by (simp add: rewritePage_firstMatch)
      from Cons.IH[OF this] Some Inr show ?thesis
        by (cases "drop 1 s = d") (simp_all split: list.splits)
    qed
  qed
qed

lemma rewritePages_no_rules: "rewritePages [] ps (a, b) = Inr (a, b)"
  by (induction ps) auto

lemma resolveRewrites_run:
  assumes "compileRules compile match userRewrites = Inr rules"
      and "resolveRewrites compile match pages userRewrites = Inr (m, iv)"
  shows "rewritePages rules pages (Map.empty, Map.empty) = Inr (m, iv)"
proof (cases "rules = []")
  case True
  with assms have "m = Map.empty" "iv = Map.empty"
    by (auto simp: resolveRewrites_def)
  with True show ?thesis by (simp add: rewritePages_no_rules)
next
  case False
  with assms show ?thesis by (simp add: resolveRewrites_def)
qed


lemma rewrites_map_value:
  assumes run: "rewritePages rules pages (Map.empty, Map.empty) = Inr (m, iv)"
  shows "m p = (if p \<in> set pages
                  then (case firstMatch rules p of
                          Some (Inr s) \<Rightarrow> Some (drop 1 s) | _ \<Rightarrow> None)
                  else None)"
  using rewritePages_map[OF run, of p] by simp

lemma rewrites_pred:
  assumes run: "rewritePages rules pages (Map.empty, Map.empty) = Inr (m, iv)"
      and "p \<in> set pages"
  shows "(\<exists>s. firstMatch rules p = Some (Inr s) \<and> drop 1 s = d) = (m p = Some d)"
  using assms(2) unfolding rewrites_map_value[OF run, of p]
  by (auto split: option.splits sum.splits)

lemma rewrites_inv_value:
  assumes run: "rewritePages rules pages (Map.empty, Map.empty) = Inr (m, iv)"
  shows "iv d = (case filter (\<lambda>p. m p = Some d) pages of [] \<Rightarrow> None | ps \<Rightarrow> Some (last ps))"
proof -
  have same: "filter (\<lambda>p. \<exists>s. firstMatch rules p = Some (Inr s) \<and> drop 1 s = d) pages
            = filter (\<lambda>p. m p = Some d) pages"
    by (rule filter_cong[OF refl]) (rule rewrites_pred[OF run])
  show ?thesis
    using rewritePages_inv[OF run, of d] unfolding same by simp
qed


lemma rewrites_round_trip:
  assumes run: "rewritePages rules pages (Map.empty, Map.empty) = Inr (m, iv)"
      and mp: "m p = Some d" and uniq: "\<forall>q. m q = Some d \<longrightarrow> q = p"
  shows "iv d = Some p"
proof -
  let ?ps = "filter (\<lambda>p. m p = Some d) pages"
  from mp rewrites_map_value[OF run, of p] have "p \<in> set pages" by (simp split: if_splits)
  with mp have ne: "?ps \<noteq> []" by (auto simp: filter_empty_conv)
  then have "last ?ps \<in> set ?ps" by (rule last_in_set)
  then have "m (last ?ps) = Some d" by simp
  with uniq have "last ?ps = p" by blast
  with ne rewrites_inv_value[OF run, of d] show ?thesis by (cases ?ps) simp_all
qed

text \<open>
  Claim C7, as the code has it.  When \<^verbatim>\<open>resolveRewrites\<close> returns the mappings
  \<open>m\<close> (\<^verbatim>\<open>map\<close>) and \<open>iv\<close> (\<^verbatim>\<open>inv\<close>): a page of the list is mapped to what the
  first rule that matches it computes, and anything else is absent from \<open>m\<close>;
  \<open>iv\<close> sends a destination to the last page of the list that is rewritten to it,
  and knows no other key; so \<open>iv (m p) = p\<close> holds for every page \<open>p\<close> that shares
  its destination with no other page.
\<close>

theorem resolveRewrites_first_match_last_page:
  assumes "compileRules compile match userRewrites = Inr rules"
      and "resolveRewrites compile match pages userRewrites = Inr (m, iv)"
  shows "(\<forall>p. m p = (if p \<in> set pages
                     then (case firstMatch rules p of
                             Some (Inr s) \<Rightarrow> Some (drop 1 s) | _ \<Rightarrow> None)
                     else None))
       \<and> (\<forall>d. iv d = (case filter (\<lambda>p. m p = Some d) pages of
                          [] \<Rightarrow> None | ps \<Rightarrow> Some (last ps)))
       \<and> (\<forall>p d. m p = Some d \<and> (\<forall>q. m q = Some d \<longrightarrow> q = p) \<longrightarrow> iv d = Some p)"
proof -
  note run = resolveRewrites_run[OF assms]
  show ?thesis
  proof (intro conjI allI impI)
    fix p show "m p = (if p \<in> set pages
                     then (case firstMatch rules p of
                             Some (Inr s) \<Rightarrow> Some (drop 1 s) | _ \<Rightarrow> None)
                     else None)" by (rule rewrites_map_value[OF run])
  next
    fix d show "iv d = (case filter (\<lambda>p. m p = Some d) pages of
                          [] \<Rightarrow> None | ps \<Rightarrow> Some (last ps))" by (rule rewrites_inv_value[OF run])
  next
    fix p d assume "m p = Some d \<and> (\<forall>q. m q = Some d \<longrightarrow> q = p)"
    then show "iv d = Some p" using rewrites_round_trip[OF run] by blast
  qed
qed


theorem resolveRewrites_first_match_last_page_witness:
  "compileRules literalCompile literalMatch [(''guide/a'', ''a'')]
     = Inr [\<lparr>toPath = \<lambda>params. Inr ''/a'',
              matchUrl = \<lambda>page. if page = ''guide/a'' then Some () else None\<rparr>]
   \<and> resolveRewrites literalCompile literalMatch [''guide/a'', ''b''] [(''guide/a'', ''a'')]
     = Inr ([''guide/a'' \<mapsto> ''a''], [''a'' \<mapsto> ''guide/a''])
   \<and> [''a'' \<mapsto> ''guide/a''] ''a'' = Some ''guide/a''
   \<and> [''guide/a'' \<mapsto> ''a''] ''b'' = None"
proof -
  have c: "compileRules literalCompile literalMatch [(''guide/a'', ''a'')]
     = Inr [\<lparr>toPath = \<lambda>params. Inr ''/a'',
              matchUrl = \<lambda>page. if page = ''guide/a'' then Some () else None\<rparr>]"
    by (simp add: literalCompile_def literalMatch_def startsWith_def)
  have r: "resolveRewrites literalCompile literalMatch [''guide/a'', ''b''] [(''guide/a'', ''a'')]
     = Inr ([''guide/a'' \<mapsto> ''a''], [''a'' \<mapsto> ''guide/a''])"
    by (simp add: resolveRewrites_def literalCompile_def literalMatch_def startsWith_def Let_def)
  from resolveRewrites_first_match_last_page[OF c r] c r show ?thesis by simp
qed

text \<open>
  The round trip fails when two pages are rewritten to one destination: the
  inverse keeps the later page.  And a page that no rule matches is a key of the
  inverse mapping when it is the destination of another page.
\<close>

theorem resolveRewrites_round_trip_counterexample:
  "rewrites_map (resolveRewrites literalCompile literalMatch [''a'', ''b'']
                   [(''a'', ''x''), (''b'', ''x'')]) ''a'' = Some ''x''
   \<and> rewrites_inv (resolveRewrites literalCompile literalMatch [''a'', ''b'']
                   [(''a'', ''x''), (''b'', ''x'')]) ''x'' = Some ''b''
   \<and> rewrites_map (resolveRewrites literalCompile literalMatch [''a'', ''b'']
                   [(''a'', ''b'')]) ''b'' = None
   \<and> rewrites_inv (resolveRewrites literalCompile literalMatch [''a'', ''b'']
                   [(''a'', ''b'')]) ''b'' = Some ''a''"
  by (simp add: rewrites_map_def rewrites_inv_def resolveRewrites_def literalCompile_def
        literalMatch_def startsWith_def Let_def)

section \<open>Pages and dynamic routes\<close>







section \<open>Links that are not treated as pages\<close>

lemma splitOn_nonempty: "splitOn sep s \<noteq> []"
  by (induction s) (auto split: list.splits)

lemma splitOn_no_sep: "sep \<notin> set s \<Longrightarrow> splitOn sep s = [s]"
  by (induction s) auto

lemma splitOn_append:
  "splitOn sep (a @ sep # b) = splitOn sep a @ splitOn sep b"
proof (induction a)
  case Nil
  then show ?case by simp
next
  case (Cons c a)
  then show ?case
    using splitOn_nonempty[of sep a] by (cases "splitOn sep a") auto
qed

lemma last_splitOn:
  "sep \<notin> set ext \<Longrightarrow> last (splitOn sep (base @ sep # ext)) = ext"
  by (simp add: splitOn_append splitOn_no_sep)

lemma KNOWN_EXTENSIONS_builtin:
  "set (splitOn CHR '','' builtinExtensions) \<subseteq> KNOWN_EXTENSIONS extraExts"
  by (auto simp: KNOWN_EXTENSIONS_def splitOn_append)

lemma builtin_examples:
  "''png'' \<in> set (splitOn CHR '','' builtinExtensions)"
  "''js'' \<in> set (splitOn CHR '','' builtinExtensions)"
  "''pdf'' \<in> set (splitOn CHR '','' builtinExtensions)"
  "''zip'' \<in> set (splitOn CHR '','' builtinExtensions)"
  by code_simp+

lemma not_treatAsHtml:
  assumes "CHR ''.'' \<notin> set ext" and "toLowerCase ext \<in> KNOWN_EXTENSIONS extraExts"
  shows "\<not> treatAsHtml extraExts (base @ CHR ''.'' # ext)"
  using assms by (simp add: treatAsHtml_def last_splitOn)

text \<open>
  Claim C10.  A link whose pathname ends in a dot followed by a known extension, in
  upper or lower case, is passed over by the loop: nothing is recorded for it and
  nothing else of the loop body runs, whatever the page list, the public directory
  and the setting \<^verbatim>\<open>ignoreDeadLinks\<close> are.
\<close>

theorem known_extension_link_skipped:
  assumes "urlPathname env link = Inr (base @ CHR ''.'' # ext)"
      and "CHR ''.'' \<notin> set ext"
      and "toLowerCase ext \<in> KNOWN_EXTENSIONS (extraExtensions env)"
  shows "checkLink env link = Inr None
       \<and> checkLinks env (link # links) = checkLinks env links"
proof -
  have "checkLink env link = Inr None"
    using assms by (simp add: checkLink_def not_treatAsHtml)
  then show ?thesis by (simp split: sum.splits)
qed

theorem known_extension_link_skipped_witness:
  "checkLink (exampleEnv None ''/logo.PNG'') ''/logo.PNG?x'' = Inr None
   \<and> checkLinks (exampleEnv None ''/logo.PNG'') [''/logo.PNG?x''] = Inr []
   \<and> toLowerCase ''PNG'' = ''png''
   \<and> {''png'', ''js'', ''pdf'', ''zip''} \<subseteq> KNOWN_EXTENSIONS ''''"
proof -
  have p: "urlPathname (exampleEnv None ''/logo.PNG'') ''/logo.PNG?x''
             = Inr (''/logo'' @ CHR ''.'' # ''PNG'')"
    by (simp add: exampleEnv_def)
  have d: "CHR ''.'' \<notin> set ''PNG''" by simp
  have l: "toLowerCase ''PNG'' = ''png''" by code_simp
  have k: "toLowerCase ''PNG'' \<in> KNOWN_EXTENSIONS (extraExtensions (exampleEnv None ''/logo.PNG''))"
    unfolding l using builtin_examples(1) KNOWN_EXTENSIONS_builtin
    by (auto simp: exampleEnv_def)
  from known_extension_link_skipped[OF p d k, of "[]"] l
    builtin_examples KNOWN_EXTENSIONS_builtin[of "''''"]
  show ?thesis by auto
qed

section \<open>Dead links and the setting \<^verbatim>\<open>ignoreDeadLinks\<close>\<close>









section \<open>Page chunks of the client bundle\<close>
















lemma afterStaticEnd_found:
  assumes "CHR ''_'' \<notin> set body" and "isQuote q"
  shows "afterStaticEnd (body @ STATIC_END @ q # post) = Some post"
  using assms
proof (induction body)
  case Nil
  then show ?case by (simp add: STATIC_END_def)
next
  case (Cons c body)
  then have "\<not> prefix STATIC_END (c # body @ STATIC_END @ q # post)"
    by (auto simp: STATIC_END_def)
  with Cons show ?case by simp
qed

lemma stripStatic_region:
  assumes "isQuote q" and "isQuote q'" and "CHR ''_'' \<notin> set body"
  shows "stripStatic (q # STATIC_START @ body @ STATIC_END @ q' # post)
           = [CHR 0x22, CHR 0x22] @ stripStatic post"
  using assms afterStaticEnd_found[of body q' post] by simp

lemma stripStatic_plain:
  "\<forall>c \<in> set pre. \<not> isQuote c \<Longrightarrow> stripStatic (pre @ s) = pre @ stripStatic s"
  by (induction pre) auto

lemma restoreStatic_marker:
  "restoreStatic (STATIC_START @ s) = restoreStatic s"
  "restoreStatic (STATIC_END @ s) = restoreStatic s"
  by (simp_all add: STATIC_START_def STATIC_END_def)

lemma restoreStatic_plain:
  "CHR ''_'' \<notin> set pre \<Longrightarrow> restoreStatic (pre @ s) = pre @ restoreStatic s"
proof (induction pre)
  case Nil
  then show ?case by simp
next
  case (Cons c pre)
  then have "\<not> prefix STATIC_START (c # pre @ s)" "\<not> prefix STATIC_END (c # pre @ s)"
    by (auto simp: STATIC_START_def STATIC_END_def)
  with Cons show ?case by simp
qed


section \<open>The client router\<close>

lemma run_append: "run env (xs @ ys) st = run env ys (run env xs st)"
  by (induction xs arbitrary: st) auto

lemma step_keeps_counters:
  assumes inv: "\<And>j c. rs_calls st j = Some c \<Longrightarrow> countersAgree c"
      and new: "rs_calls (step env e st) j = Some c'"
  shows "countersAgree c'"
proof (cases e)
  case (Start i href)
  show ?thesis
  proof (cases "j = i")
    case True
    show ?thesis
    proof (cases "rs_calls st i")
      case None
      with Start new True show ?thesis by (auto simp: countersAgree_def)
    next
      case (Some call)
      with Start new True have "rs_calls st i = Some c'" by simp
      then show ?thesis by (rule inv)
    qed
  next
    case False
    with Start new inv[of j c'] show ?thesis by (auto split: if_splits)
  qed
next
  case (HookDone i r)
  show ?thesis
  proof (cases "j = i")
    case False
    with HookDone new inv[of j c'] show ?thesis
      by (auto simp: finish_def setNotFound_def
               split: option.splits phase.splits hookResult.splits if_splits)
  next
    case True
    show ?thesis
    proof (cases "rs_calls st i")
      case None
      with HookDone new True inv[of i c'] show ?thesis by simp
    next
      case (Some call)
      from inv[OF Some] have "countersAgree call" .
      with HookDone new True Some show ?thesis
        by (cases "call_phase call"; cases r)
           (auto simp: countersAgree_def finish_def setNotFound_def split: if_splits)
    qed
  qed
next
  case (ImportDone i r)
  show ?thesis
  proof (cases "j = i")
    case False
    with ImportDone new inv[of j c'] show ?thesis
      by (auto simp: finish_def setNotFound_def catchLoadError_def Let_def
               split: option.splits phase.splits importResult.splits if_splits)
  next
    case True
    show ?thesis
    proof (cases "rs_calls st i")
      case None
      with ImportDone new True inv[of i c'] show ?thesis by simp
    next
      case (Some call)
      from inv[OF Some] have "countersAgree call" .
      with ImportDone new True Some show ?thesis
        by (cases "call_phase call"; cases r)
           (auto simp: countersAgree_def finish_def setNotFound_def catchLoadError_def Let_def
                 split: if_splits option.splits)
    qed
  qed
next
  case (FetchDone i r)
  show ?thesis
  proof (cases "j = i")
    case False
    with FetchDone new inv[of j c'] show ?thesis
      by (auto simp: finish_def setNotFound_def
               split: option.splits phase.splits if_splits)
  next
    case True
    show ?thesis
    proof (cases "rs_calls st i")
      case None
      with FetchDone new True inv[of i c'] show ?thesis by simp
    next
      case (Some call)
      from inv[OF Some] have "countersAgree call" .
      with FetchDone new True Some show ?thesis
        by (cases "call_phase call"; cases r)
           (auto simp: countersAgree_def finish_def setNotFound_def split: if_splits)
    qed
  qed
qed

lemma run_keeps_counters:
  assumes "\<And>j c. rs_calls st j = Some c \<Longrightarrow> countersAgree c"
      and "rs_calls (run env es st) j = Some c'"
  shows "countersAgree c'"
  using assms
proof (induction es arbitrary: st)
  case Nil
  then show ?case by simp
next
  case (Cons e es)
  show ?case
  proof (rule Cons.IH[of "step env e st"])
    fix k c assume "rs_calls (step env e st) k = Some c"
    then show "countersAgree c" using step_keeps_counters Cons.prems(1) by blast
  next
    from Cons.prems(2) show "rs_calls (run env es (step env e st)) j = Some c'" by simp
  qed
qed

lemma countersAgree_bounds: "countersAgree c \<Longrightarrow> call_imports c \<le> 2 \<and> call_fetches c \<le> 1"
  by (cases "call_phase c") (auto simp: countersAgree_def split: if_splits)


lemma step_not_rejected:
  assumes inv: "\<And>j c. rs_calls st j = Some c \<Longrightarrow> call_phase c \<noteq> Finished Rejected"
      and e: "\<And>i. e \<noteq> HookDone i HookThrows"
      and new: "rs_calls (step env e st) j = Some c'"
  shows "call_phase c' \<noteq> Finished Rejected"
proof (cases e)
  case (Start i href)
  with new inv[of j c'] show ?thesis by (auto split: if_splits)
next
  case (HookDone i r)
  with e have r: "r \<noteq> HookThrows" by auto
  show ?thesis
  proof (cases "rs_calls st i")
    case None
    with HookDone new inv[of j c'] show ?thesis by simp
  next
    case (Some call)
    with HookDone new inv[of j c'] r show ?thesis
      by (cases "call_phase call"; cases r)
         (auto simp: finish_def setNotFound_def split: if_splits)
  qed
next
  case (ImportDone i r)
  show ?thesis
  proof (cases "rs_calls st i")
    case None
    with ImportDone new inv[of j c'] show ?thesis by simp
  next
    case (Some call)
    with ImportDone new inv[of j c'] show ?thesis
      by (cases "call_phase call"; cases r)
         (auto simp: finish_def setNotFound_def catchLoadError_def Let_def
               split: if_splits option.splits)
  qed
next
  case (FetchDone i r)
  show ?thesis
  proof (cases "rs_calls st i")
    case None
    with FetchDone new inv[of j c'] show ?thesis by simp
  next
    case (Some call)
    with FetchDone new inv[of j c'] show ?thesis
      by (cases "call_phase call"; cases r)
         (auto simp: finish_def setNotFound_def split: if_splits)
  qed
qed

lemma run_not_rejected:
  assumes "\<And>j c. rs_calls st j = Some c \<Longrightarrow> call_phase c \<noteq> Finished Rejected"
      and "\<And>i. HookDone i HookThrows \<notin> set es"
      and "rs_calls (run env es st) j = Some c'"
  shows "call_phase c' \<noteq> Finished Rejected"
  using assms
proof (induction es arbitrary: st)
  case Nil
  then show ?case by simp
next
  case (Cons e es)
  show ?case
  proof (rule Cons.IH[of "step env e st"])
    fix k c assume k: "rs_calls (step env e st) k = Some c"
    show "call_phase c \<noteq> Finished Rejected"
    proof (rule step_not_rejected[OF _ _ k])
      fix j' c'' assume "rs_calls st j' = Some c''"
      then show "call_phase c'' \<noteq> Finished Rejected" by (rule Cons.prems(1))
    next
      fix i show "e \<noteq> HookDone i HookThrows" using Cons.prems(2)[of i] by auto
    qed
  next
    fix i show "HookDone i HookThrows \<notin> set es" using Cons.prems(2)[of i] by simp
  next
    from Cons.prems(3) show "rs_calls (run env es (step env e st)) j = Some c'" by simp
  qed
qed

lemma first_failure_fetches:
  assumes "rs_calls st i = None" and "r1 = NoModule \<or> r1 = ImportRejects"
  shows "run env [Start i href, HookDone i Proceed, ImportDone i r1] st
     = st\<lparr>rs_latestPendingPath := Some (env_pathname env href),
          rs_calls := (rs_calls st)
            (i \<mapsto> \<lparr>call_href = href, call_phase = AwaitFetch,
                    call_imports = 1, call_fetches = 1\<rparr>)\<rparr>"
  using assms
  by (auto intro!: RouterState.equality simp: catchLoadError_def Let_def)

lemma retry_failure_not_found:
  assumes "rs_calls st i = None" and "r1 = NoModule \<or> r1 = ImportRejects"
      and "r2 = NoModule \<or> r2 = ImportRejects"
  shows "run env [Start i href, HookDone i Proceed, ImportDone i r1, FetchDone i (Some h),
                  HookDone i Proceed, ImportDone i r2] st
     = st\<lparr>rs_route := notFoundRoute env (env_pathname env href),
          rs_latestPendingPath := None,
          rs_hashMap := h,
          rs_calls := (rs_calls st)
            (i \<mapsto> \<lparr>call_href = href, call_phase = Finished Returned,
                    call_imports = 2, call_fetches = 1\<rparr>)\<rparr>"
  using assms
  by (auto intro!: RouterState.equality
           simp: catchLoadError_def finish_def setNotFound_def Let_def numeral_2_eq_2)

lemma fetch_failure_not_found:
  assumes "rs_calls st i = None" and "r1 = NoModule \<or> r1 = ImportRejects"
  shows "run env [Start i href, HookDone i Proceed, ImportDone i r1, FetchDone i None] st
     = st\<lparr>rs_route := notFoundRoute env (env_pathname env href),
          rs_latestPendingPath := None,
          rs_calls := (rs_calls st)
            (i \<mapsto> \<lparr>call_href = href, call_phase = Finished Returned,
                    call_imports = 1, call_fetches = 1\<rparr>)\<rparr>"
  using assms
  by (auto intro!: RouterState.equality
           simp: catchLoadError_def finish_def setNotFound_def Let_def numeral_2_eq_2)

lemma retry_failure_step:
  assumes "rs_calls s j = Some call" and "call_phase call = AwaitImport True"
      and "r = NoModule \<or> r = ImportRejects"
  shows "step env (ImportDone j r) s
           = finish j call Returned (setNotFound env (env_pathname env (call_href call)) s)"
  using assms by (auto simp: Let_def catchLoadError_def)

text \<open>
  Claim C3, as the code has it.  Take a call of \<^verbatim>\<open>loadPage\<close> that is not a retry, and
  let its import fail (by rejection or with no module).  Then the call fetches the
  hash map, and the Route is untouched so far.  If the fetch succeeds, the load is
  retried once; if the retried import fails as well and no other call has taken
  the place of this one, the Route becomes the not-found route.  If the fetch
  fails, there is no retry and the Route becomes the not-found route at once.  In
  every interleaving of calls a retried import that fails ends the call with the
  last block of the \<^verbatim>\<open>catch\<close> clause, which writes the Route only if
  \<^verbatim>\<open>latestPendingPath\<close> is still the path of the call; no call imports more than
  twice or fetches more than once; and no call ends with an error unless a hook
  throws.
\<close>

theorem load_failure_refetch_retry_once:
  assumes "rs_calls st i = None"
      and "r1 = NoModule \<or> r1 = ImportRejects"
      and "r2 = NoModule \<or> r2 = ImportRejects"
  shows "run env [Start i href, HookDone i Proceed, ImportDone i r1] st
           = st\<lparr>rs_latestPendingPath := Some (env_pathname env href),
                rs_calls := (rs_calls st)
                  (i \<mapsto> \<lparr>call_href = href, call_phase = AwaitFetch,
                          call_imports = 1, call_fetches = 1\<rparr>)\<rparr>
       \<and> run env [Start i href, HookDone i Proceed, ImportDone i r1, FetchDone i (Some h),
                   HookDone i Proceed, ImportDone i r2] st
           = st\<lparr>rs_route := notFoundRoute env (env_pathname env href),
                rs_latestPendingPath := None,
                rs_hashMap := h,
                rs_calls := (rs_calls st)
                  (i \<mapsto> \<lparr>call_href = href, call_phase = Finished Returned,
                          call_imports = 2, call_fetches = 1\<rparr>)\<rparr>
       \<and> run env [Start i href, HookDone i Proceed, ImportDone i r1, FetchDone i None] st
           = st\<lparr>rs_route := notFoundRoute env (env_pathname env href),
                rs_latestPendingPath := None,
                rs_calls := (rs_calls st)
                  (i \<mapsto> \<lparr>call_href = href, call_phase = Finished Returned,
                          call_imports = 1, call_fetches = 1\<rparr>)\<rparr>
       \<and> (\<forall>s j call. rs_calls s j = Some call \<and> call_phase call = AwaitImport True \<longrightarrow>
             step env (ImportDone j r2) s
               = finish j call Returned (setNotFound env (env_pathname env (call_href call)) s))
       \<and> ((\<forall>j c. rs_calls st j = Some c \<longrightarrow> countersAgree c) \<longrightarrow>
            (\<forall>es j c. rs_calls (run env es st) j = Some c \<longrightarrow>
               call_imports c \<le> 2 \<and> call_fetches c \<le> 1))
       \<and> ((\<forall>j c. rs_calls st j = Some c \<longrightarrow> call_phase c \<noteq> Finished Rejected) \<longrightarrow>
            (\<forall>es j c. (\<forall>k. HookDone k HookThrows \<notin> set es) \<and> rs_calls (run env es st) j = Some c
               \<longrightarrow> call_phase c \<noteq> Finished Rejected))"
proof -
  have g: "\<forall>s j call. rs_calls s j = Some call \<and> call_phase call = AwaitImport True \<longrightarrow>
             step env (ImportDone j r2) s
               = finish j call Returned (setNotFound env (env_pathname env (call_href call)) s)"
    using retry_failure_step[OF _ _ assms(3)] by blast
  have c: "(\<forall>j c. rs_calls st j = Some c \<longrightarrow> countersAgree c) \<longrightarrow>
            (\<forall>es j c. rs_calls (run env es st) j = Some c \<longrightarrow>
               call_imports c \<le> 2 \<and> call_fetches c \<le> 1)"
  proof (intro impI allI)
    fix es j c
    assume inv: "\<forall>j c. rs_calls st j = Some c \<longrightarrow> countersAgree c"
      and c: "rs_calls (run env es st) j = Some c"
    have "countersAgree c"
      by (rule run_keeps_counters[OF _ c]) (use inv in blast)
    then show "call_imports c \<le> 2 \<and> call_fetches c \<le> 1" by (rule countersAgree_bounds)
  qed
  have n: "(\<forall>j c. rs_calls st j = Some c \<longrightarrow> call_phase c \<noteq> Finished Rejected) \<longrightarrow>
            (\<forall>es j c. (\<forall>k. HookDone k HookThrows \<notin> set es) \<and> rs_calls (run env es st) j = Some c
               \<longrightarrow> call_phase c \<noteq> Finished Rejected)"
  proof (intro impI allI)
    fix es j c
    assume inv: "\<forall>j c. rs_calls st j = Some c \<longrightarrow> call_phase c \<noteq> Finished Rejected"
      and c: "(\<forall>k. HookDone k HookThrows \<notin> set es) \<and> rs_calls (run env es st) j = Some c"
    show "call_phase c \<noteq> Finished Rejected"
    proof (rule run_not_rejected[of st es env j c])
      fix j' c' assume "rs_calls st j' = Some c'"
      with inv show "call_phase c' \<noteq> Finished Rejected" by blast
    next
      fix i' from c show "HookDone i' HookThrows \<notin> set es" by blast
    next
      from c show "rs_calls (run env es st) j = Some c" by blast
    qed
  qed
  show ?thesis
    by (intro conjI first_failure_fetches[OF assms(1,2)] retry_failure_not_found[OF assms]
          fetch_failure_not_found[OF assms(1,2)] g c n)
qed

theorem load_failure_refetch_retry_once_witness:
  "rs_route (run exampleRouter
       [Start 1 ''/guide/'', HookDone 1 Proceed, ImportDone 1 ImportRejects,
        FetchDone 1 (Some Map.empty), HookDone 1 Proceed, ImportDone 1 NoModule]
       (createRouter Map.empty :: (string, string) RouterState))
     = \<lparr>route_path = ''/guide/'', route_component = Some ''NotFound'',
        route_data = NotFoundPageData ''guide/index.md''\<rparr>
   \<and> rs_calls (run exampleRouter
       [Start 1 ''/guide/'', HookDone 1 Proceed, ImportDone 1 ImportRejects,
        FetchDone 1 (Some Map.empty), HookDone 1 Proceed, ImportDone 1 NoModule]
       (createRouter Map.empty :: (string, string) RouterState)) 1
     = Some \<lparr>call_href = ''/guide/'', call_phase = Finished Returned,
              call_imports = 2, call_fetches = 1\<rparr>"
proof -
  have fresh: "rs_calls (createRouter Map.empty :: (string, string) RouterState) 1 = None"
    by (simp add: createRouter_def)
  have nf: "notFoundRoute exampleRouter (env_pathname exampleRouter ''/guide/'')
     = (\<lparr>route_path = ''/guide/'', route_component = Some ''NotFound'',
        route_data = NotFoundPageData ''guide/index.md''\<rparr> :: (string, string) Route)"
    by (simp add: notFoundRoute_def routePath_def exampleRouter_def notFoundRelativePath_def
          endsWith_def startsWith_def suffix_to_prefix)
  have f1: "ImportRejects = NoModule \<or> (ImportRejects :: (string, string) importResult) = ImportRejects"
    and f2: "NoModule = NoModule \<or> (NoModule :: (string, string) importResult) = ImportRejects"
    by simp_all
  from load_failure_refetch_retry_once[OF fresh f1 f2, of exampleRouter "''/guide/''" Map.empty]
  have "run exampleRouter
       [Start 1 ''/guide/'', HookDone 1 Proceed, ImportDone 1 ImportRejects,
        FetchDone 1 (Some Map.empty), HookDone 1 Proceed, ImportDone 1 NoModule]
       (createRouter Map.empty :: (string, string) RouterState)
     = (createRouter Map.empty)\<lparr>rs_route := notFoundRoute exampleRouter (env_pathname exampleRouter ''/guide/''),
                rs_latestPendingPath := None,
                rs_hashMap := Map.empty,
                rs_calls := (rs_calls (createRouter Map.empty :: (string, string) RouterState))
                  (1 \<mapsto> \<lparr>call_href = ''/guide/'', call_phase = Finished Returned,
                          call_imports = 2, call_fetches = 1\<rparr>)\<rparr>"
    by (rule conjunct1[OF conjunct2])
  then have r: "run exampleRouter
       [Start 1 ''/guide/'', HookDone 1 Proceed, ImportDone 1 ImportRejects,
        FetchDone 1 (Some Map.empty), HookDone 1 Proceed, ImportDone 1 NoModule]
       (createRouter Map.empty :: (string, string) RouterState)
     = (createRouter Map.empty)\<lparr>rs_route := \<lparr>route_path = ''/guide/'', route_component = Some ''NotFound'',
                                route_data = NotFoundPageData ''guide/index.md''\<rparr>,
                rs_latestPendingPath := None,
                rs_hashMap := Map.empty,
                rs_calls := (rs_calls (createRouter Map.empty :: (string, string) RouterState))
                  (1 \<mapsto> \<lparr>call_href = ''/guide/'', call_phase = Finished Returned,
                          call_imports = 2, call_fetches = 1\<rparr>)\<rparr>"
    by (simp only: nf)
  show ?thesis
    unfolding r by simp
qed

text \<open>
  There is no retry when the hash map cannot be fetched; and a call whose retried
  import fails after another navigation has started leaves the Route as it was.
\<close>

theorem retry_or_not_found_counterexample:
  "rs_calls (run exampleRouter
       [Start 1 ''/a'', HookDone 1 Proceed, ImportDone 1 ImportRejects, FetchDone 1 None]
       (createRouter Map.empty :: (string, string) RouterState)) 1
     = Some \<lparr>call_href = ''/a'', call_phase = Finished Returned,
              call_imports = 1, call_fetches = 1\<rparr>
   \<and> rs_route (run exampleRouter
       [Start 1 ''/a'', HookDone 1 Proceed, ImportDone 1 NoModule, FetchDone 1 (Some Map.empty),
        HookDone 1 Proceed, Start 2 ''/b'', HookDone 2 Proceed, ImportDone 1 NoModule]
       (createRouter Map.empty :: (string, string) RouterState))
     = \<lparr>route_path = ''/'', route_component = None, route_data = NotFoundPageData ''404.md''\<rparr>
   \<and> rs_calls (run exampleRouter
       [Start 1 ''/a'', HookDone 1 Proceed, ImportDone 1 NoModule, FetchDone 1 (Some Map.empty),
        HookDone 1 Proceed, Start 2 ''/b'', HookDone 2 Proceed, ImportDone 1 NoModule]
       (createRouter Map.empty :: (string, string) RouterState)) 1
     = Some \<lparr>call_href = ''/a'', call_phase = Finished Returned,
              call_imports = 2, call_fetches = 1\<rparr>"
  by code_simp

lemma stale_result_discarded:
  assumes "rs_calls st a = Some ca" and "call_phase ca = AwaitImport ra"
      and "rs_latestPendingPath st \<noteq> Some (env_pathname env (call_href ca))"
  shows "step env (ImportDone a (Module component da)) st = finish a ca Returned st"
  using assms by (simp add: Let_def)

lemma latest_result_applied:
  assumes "rs_calls st b = Some cb" and "call_phase cb = AwaitImport rb"
      and "rs_latestPendingPath st = Some (env_pathname env (call_href cb))"
  shows "step env (ImportDone b (Module (Some c) db)) st
           = finish b cb Returned
               (st\<lparr>rs_latestPendingPath := None,
                   rs_route := loadedRoute env (env_pathname env (call_href cb)) c db\<rparr>)"
  using assms by (simp add: Let_def)

text \<open>
  Claim C1, as the code has it.  Let two calls wait for their imports, for
  different paths, and let \<^verbatim>\<open>latestPendingPath\<close> be the path of the second.  When the
  import of the first call yields a module, the call ends without an error and
  changes nothing but its own record: the Route and \<^verbatim>\<open>latestPendingPath\<close> stay.  And
  in whichever order the two imports yield their modules, the Route is the one of
  the second call.
\<close>

theorem superseded_load_is_discarded:
  assumes "rs_calls st a = Some ca" and "call_phase ca = AwaitImport ra"
      and "rs_calls st b = Some cb" and "call_phase cb = AwaitImport rb"
      and "a \<noteq> b"
      and "env_pathname env (call_href ca) \<noteq> env_pathname env (call_href cb)"
      and "rs_latestPendingPath st = Some (env_pathname env (call_href cb))"
  shows "step env (ImportDone a (Module component da)) st
           = st\<lparr>rs_calls := (rs_calls st)(a \<mapsto> ca\<lparr>call_phase := Finished Returned\<rparr>)\<rparr>
       \<and> rs_route (run env [ImportDone a (Module component da),
                              ImportDone b (Module (Some c) db)] st)
           = loadedRoute env (env_pathname env (call_href cb)) c db
       \<and> rs_route (run env [ImportDone b (Module (Some c) db),
                              ImportDone a (Module component da)] st)
           = loadedRoute env (env_pathname env (call_href cb)) c db"
proof (intro conjI)
  from assms(6,7) have stale: "rs_latestPendingPath st \<noteq> Some (env_pathname env (call_href ca))"
    by simp
  show d: "step env (ImportDone a (Module component da)) st
           = st\<lparr>rs_calls := (rs_calls st)(a \<mapsto> ca\<lparr>call_phase := Finished Returned\<rparr>)\<rparr>"
    using stale_result_discarded[OF assms(1,2) stale] by (simp add: finish_def)
  let ?afterA = "st\<lparr>rs_calls := (rs_calls st)(a \<mapsto> ca\<lparr>call_phase := Finished Returned\<rparr>)\<rparr>"
  have b1: "rs_calls ?afterA b = Some cb" using assms(3,5) by simp
  have l1: "rs_latestPendingPath ?afterA = Some (env_pathname env (call_href cb))"
    using assms(7) by simp
  show "rs_route (run env [ImportDone a (Module component da),
                              ImportDone b (Module (Some c) db)] st)
           = loadedRoute env (env_pathname env (call_href cb)) c db"
    using latest_result_applied[OF b1 assms(4) l1] d by (simp add: finish_def)
  let ?afterB = "finish b cb Returned
               (st\<lparr>rs_latestPendingPath := None,
                   rs_route := loadedRoute env (env_pathname env (call_href cb)) c db\<rparr>)"
  have a2: "rs_calls ?afterB a = Some ca" using assms(1,5) by (simp add: finish_def)
  have l2: "rs_latestPendingPath ?afterB \<noteq> Some (env_pathname env (call_href ca))"
    by (simp add: finish_def)
  show "rs_route (run env [ImportDone b (Module (Some c) db),
                              ImportDone a (Module component da)] st)
           = loadedRoute env (env_pathname env (call_href cb)) c db"
    using latest_result_applied[OF assms(3,4,7)] stale_result_discarded[OF a2 assms(2) l2]
    by (simp add: finish_def)
qed

lemma two_loads_pending:
  assumes "rs_calls st a = None" and "rs_calls st b = None" and "a \<noteq> b"
  shows "run env [Start a ha, HookDone a Proceed, Start b hb, HookDone b Proceed] st
     = st\<lparr>rs_latestPendingPath := Some (env_pathname env hb),
          rs_calls := (rs_calls st)
            (a \<mapsto> \<lparr>call_href = ha, call_phase = AwaitImport False,
                    call_imports = 1, call_fetches = 0\<rparr>,
             b \<mapsto> \<lparr>call_href = hb, call_phase = AwaitImport False,
                    call_imports = 1, call_fetches = 0\<rparr>)\<rparr>"
  using assms by (auto intro!: RouterState.equality)

theorem superseded_load_is_discarded_witness:
  "run exampleRouter [Start 1 ''/a'', HookDone 1 Proceed, Start 2 ''/b'', HookDone 2 Proceed]
       (createRouter Map.empty :: (string, string) RouterState)
     = \<lparr>rs_route = getDefaultRoute, rs_latestPendingPath = Some ''/b'',
        rs_hashMap = Map.empty,
        rs_calls = [1 \<mapsto> \<lparr>call_href = ''/a'', call_phase = AwaitImport False,
                             call_imports = 1, call_fetches = 0\<rparr>,
                    2 \<mapsto> \<lparr>call_href = ''/b'', call_phase = AwaitImport False,
                             call_imports = 1, call_fetches = 0\<rparr>]\<rparr>
   \<and> rs_route (run exampleRouter
         [ImportDone 1 (Module (Some ''A'') ''a.md''), ImportDone 2 (Module (Some ''B'') ''b.md'')]
         \<lparr>rs_route = getDefaultRoute, rs_latestPendingPath = Some ''/b'',
          rs_hashMap = Map.empty,
          rs_calls = [1 \<mapsto> \<lparr>call_href = ''/a'', call_phase = AwaitImport False,
                               call_imports = 1, call_fetches = 0\<rparr>,
                      2 \<mapsto> \<lparr>call_href = ''/b'', call_phase = AwaitImport False,
                               call_imports = 1, call_fetches = 0\<rparr>]\<rparr>)
     = \<lparr>route_path = ''/b'', route_component = Some ''B'', route_data = PageData ''b.md''\<rparr>
   \<and> rs_route (run exampleRouter
         [ImportDone 2 (Module (Some ''B'') ''b.md''), ImportDone 1 (Module (Some ''A'') ''a.md'')]
         \<lparr>rs_route = getDefaultRoute, rs_latestPendingPath = Some ''/b'',
          rs_hashMap = Map.empty,
          rs_calls = [1 \<mapsto> \<lparr>call_href = ''/a'', call_phase = AwaitImport False,
                               call_imports = 1, call_fetches = 0\<rparr>,
                      2 \<mapsto> \<lparr>call_href = ''/b'', call_phase = AwaitImport False,
                               call_imports = 1, call_fetches = 0\<rparr>]\<rparr>)
     = \<lparr>route_path = ''/b'', route_component = Some ''B'', route_data = PageData ''b.md''\<rparr>"
proof (intro conjI)
  let ?ca = "\<lparr>call_href = ''/a'', call_phase = AwaitImport False,
                    call_imports = 1, call_fetches = 0\<rparr>"
  let ?cb = "\<lparr>call_href = ''/b'', call_phase = AwaitImport False,
                    call_imports = 1, call_fetches = 0\<rparr>"
  let ?mid = "\<lparr>rs_route = getDefaultRoute :: (string, string) Route,
          rs_latestPendingPath = Some ''/b'',
          rs_hashMap = Map.empty,
          rs_calls = [1 \<mapsto> ?ca, 2 \<mapsto> ?cb]\<rparr>"
  show "run exampleRouter [Start 1 ''/a'', HookDone 1 Proceed, Start 2 ''/b'', HookDone 2 Proceed]
       (createRouter Map.empty) = ?mid"
    by (simp add: createRouter_def exampleRouter_def)
  have h: "rs_calls ?mid 1 = Some ?ca" "call_phase ?ca = AwaitImport False"
          "rs_calls ?mid 2 = Some ?cb" "call_phase ?cb = AwaitImport False"
          "(1::nat) \<noteq> 2"
          "env_pathname exampleRouter (call_href ?ca) \<noteq> env_pathname exampleRouter (call_href ?cb)"
          "rs_latestPendingPath ?mid = Some (env_pathname exampleRouter (call_href ?cb))"
    by (simp_all add: exampleRouter_def)
  note t = superseded_load_is_discarded[OF h, of "Some ''A''" "''a.md''" "''B''" "''b.md''"]
  have lr: "loadedRoute exampleRouter (env_pathname exampleRouter (call_href ?cb)) ''B'' ''b.md''
             = \<lparr>route_path = ''/b'', route_component = Some ''B'', route_data = PageData ''b.md''\<rparr>"
    by (simp add: loadedRoute_def routePath_def exampleRouter_def)
  from t lr show "rs_route (run exampleRouter
         [ImportDone 1 (Module (Some ''A'') ''a.md''), ImportDone 2 (Module (Some ''B'') ''b.md'')]
         ?mid)
     = \<lparr>route_path = ''/b'', route_component = Some ''B'', route_data = PageData ''b.md''\<rparr>"
    by (simp only:)
  from t lr show "rs_route (run exampleRouter
         [ImportDone 2 (Module (Some ''B'') ''b.md''), ImportDone 1 (Module (Some ''A'') ''a.md'')]
         ?mid)
     = \<lparr>route_path = ''/b'', route_component = Some ''B'', route_data = PageData ''b.md''\<rparr>"
    by (simp only:)
qed

text \<open>
  A call that is no longer the latest can still decide the Route.  When the import
  of \<^verbatim>\<open>/a\<close> fails after the navigation to \<^verbatim>\<open>/b\<close> has started, its retry sets
  \<^verbatim>\<open>latestPendingPath\<close> back to \<^verbatim>\<open>/a\<close>: the module of \<^verbatim>\<open>/b\<close> is then discarded and the
  Route ends at \<^verbatim>\<open>/a\<close>.  And after the navigations \<^verbatim>\<open>/a\<close>, \<^verbatim>\<open>/b\<close>, \<^verbatim>\<open>/a\<close> the module of
  the first call is accepted, because the token is the path.
\<close>

theorem last_intent_counterexample:
  "rs_route (run exampleRouter
       [Start 1 ''/a'', HookDone 1 Proceed, Start 2 ''/b'', HookDone 2 Proceed,
        ImportDone 1 NoModule, FetchDone 1 (Some Map.empty), HookDone 1 Proceed,
        ImportDone 2 (Module (Some ''B'') ''b.md''), ImportDone 1 (Module (Some ''A'') ''a.md'')]
       (createRouter Map.empty))
     = \<lparr>route_path = ''/a'', route_component = Some ''A'', route_data = PageData ''a.md''\<rparr>
   \<and> rs_route (run exampleRouter
       [Start 1 ''/a'', HookDone 1 Proceed, Start 2 ''/b'', HookDone 2 Proceed,
        Start 3 ''/a'', HookDone 3 Proceed, ImportDone 1 (Module (Some ''A1'') ''a.md'')]
       (createRouter Map.empty))
     = \<lparr>route_path = ''/a'', route_component = Some ''A1'', route_data = PageData ''a.md''\<rparr>"
  by code_simp

end
